theory Spec2Isabelle
  imports Complex_Main
begin

chapter \<open>The programs\<close>

section \<open>Conventions of the models\<close>

text \<open>
  The repository is a set of independent files: three JavaScript puzzle solutions and
  several Python notebooks. Each function that a property below is about is translated
  into a HOL function of the same name.

  Python and JavaScript numbers that hold integers are modelled as \<open>int\<close> or \<open>nat\<close>.
  The notebooks compute with 64-bit floating-point numbers; the models compute with exact
  real numbers, so rounding, overflow and underflow are outside the models. What floating
  point does where real arithmetic has no value is written out: a Python division by zero
  raises \<open>ZeroDivisionError\<close>, a numpy division by zero returns \<open>nan\<close> or an infinity
  (type \<open>np_float\<close>), and a function of the models whose source would compute with such a
  value stops with \<open>NonFinite\<close> instead of following it further.
\<close>

datatype py_error =
    NameError            \<comment> \<open>a global name is not bound\<close>
  | IndexError           \<comment> \<open>an index outside an array\<close>
  | ZeroDivisionError    \<comment> \<open>division of Python numbers by zero\<close>
  | NonFinite            \<comment> \<open>not an exception: numpy went on with \<open>nan\<close> or an infinity\<close>

datatype np_float = Fin real | NaN | PosInf | NegInf

text \<open>numpy's elementwise division of two finite numbers.\<close>

definition np_divide :: "real \<Rightarrow> real \<Rightarrow> np_float" where
  "np_divide x y =
     (if y \<noteq> 0 then Fin (x / y)
      else if x = 0 then NaN
      else if 0 < x then PosInf else NegInf)"

text \<open>
  Indexing an axis of length \<open>n\<close> with a Python integer: a negative index counts from the
  end, and an index outside \<open>-n .. n - 1\<close> raises \<open>IndexError\<close>.
\<close>

definition py_index :: "nat \<Rightarrow> int \<Rightarrow> py_error + nat" where
  "py_index n i =
     (if 0 \<le> i \<and> i < int n then Inr (nat i)
      else if - int n \<le> i \<and> i < 0 then Inr (nat (i + int n))
      else Inl IndexError)"

text \<open>\<open>np.zeros((m, n))\<close>: a matrix is a list of \<open>m\<close> rows of length \<open>n\<close>.\<close>

definition np_zeros :: "nat \<Rightarrow> nat \<Rightarrow> real list list" where
  "np_zeros m n = replicate m (replicate n 0)"

section \<open>Hidden Markov model: forward, backward and Baum-Welch training\<close>

text \<open>
  The class \<open>HiddenMarkovModel\<close> holds two sizes and three numpy arrays. A vector is a list
  of reals and a matrix a list of rows. \<open>N\<close> below is \<open>num_hidden_states\<close> and \<open>M\<close> is
  \<open>num_observation_bins\<close>.
\<close>

record HiddenMarkovModel =
  num_hidden_states :: nat
  num_observation_bins :: nat
  transition_probs :: "real list list"
  emission_probs :: "real list list"
  initial_probs :: "real list"

text \<open>
  The constructor fills the arrays with \<open>1 / num_hidden_states\<close> and
  \<open>1 / num_observation_bins\<close>; both are divisions of Python integers and raise
  \<open>ZeroDivisionError\<close> for 0, so an object exists only with both sizes positive.
\<close>

definition np_full :: "nat \<Rightarrow> nat \<Rightarrow> real \<Rightarrow> real list list" where
  "np_full m n x = replicate m (replicate n x)"

definition HiddenMarkovModel_init :: "nat \<Rightarrow> nat \<Rightarrow> py_error + HiddenMarkovModel" where
  "HiddenMarkovModel_init n_hidden n_bins =
     (if n_hidden = 0 then Inl ZeroDivisionError
      else if n_bins = 0 then Inl ZeroDivisionError
      else Inr \<lparr>num_hidden_states = n_hidden,
                num_observation_bins = n_bins,
                transition_probs = np_full n_hidden n_hidden (1 / real n_hidden),
                emission_probs = np_full n_hidden n_bins (1 / real n_bins),
                initial_probs = replicate n_hidden (1 / real n_hidden)\<rparr>)"


subsection \<open>The numpy operations the methods use\<close>








subsection \<open>forward\<close>




subsection \<open>backward\<close>



subsection \<open>The joint probability under the model\<close>



fun state_sequences :: "nat \<Rightarrow> nat \<Rightarrow> nat list list" where
  "state_sequences n 0 = [[]]"
| "state_sequences n (Suc k) =
     concat (map (\<lambda>qs. map (\<lambda>i. qs @ [i]) [0..<n]) (state_sequences n k))"



subsection \<open>baum_welch_train\<close>









section \<open>Markov-chain regimes: estimate_transition_matrix\<close>

text \<open>
  \<open>estimate_transition_matrix(states, num_states)\<close> starts from a \<open>num_states \<times> num_states\<close>
  matrix of zeros, adds 1 at \<open>[current_state, next_state]\<close> for every pair of neighbours in
  \<open>states\<close> (\<open>zip(states[:-1], states[1:])\<close>), and divides every row by its sum with numpy's
  elementwise division. The states index the matrix, so they are Python integers and an
  index outside the matrix raises \<open>IndexError\<close>. A matrix is a list of rows.
\<close>

text \<open>The loop over the pairs of neighbours; the body is \<open>matrix[current_state, next_state] += 1\<close>.\<close>

fun count_transitions :: "nat \<Rightarrow> (int \<times> int) list \<Rightarrow> real list list \<Rightarrow> py_error + real list list" where
  "count_transitions num_states [] matrix = Inr matrix"
| "count_transitions num_states ((current_state, next_state) # pairs) matrix =
     (case py_index num_states current_state of
        Inl e \<Rightarrow> Inl e
      | Inr i \<Rightarrow>
          (case py_index num_states next_state of
             Inl e \<Rightarrow> Inl e
           | Inr j \<Rightarrow>
               count_transitions num_states pairs
                 (matrix[i := (matrix ! i)[j := matrix ! i ! j + 1]])))"

definition estimate_transition_matrix :: "int list \<Rightarrow> nat \<Rightarrow> py_error + np_float list list" where
  "estimate_transition_matrix states num_states =
     (case count_transitions num_states (zip (butlast states) (tl states))
             (np_zeros num_states num_states) of
        Inl e \<Rightarrow> Inl e
      | Inr matrix \<Rightarrow>
          let row_sums = map sum_list matrix;
              transition_matrix = map2 (\<lambda>row s. map (\<lambda>x. np_divide x s) row) matrix row_sums
          in Inr transition_matrix)"

text \<open>
  The property the notebook states above the function, "rows must sum to 1": every entry
  of the row is a number and the numbers add up to 1.
\<close>

fun fin_value :: "np_float \<Rightarrow> real option" where
  "fin_value (Fin x) = Some x"
| "fin_value NaN = None"
| "fin_value PosInf = None"
| "fin_value NegInf = None"

definition row_sums_to_one :: "np_float list \<Rightarrow> bool" where
  "row_sums_to_one row \<longleftrightarrow>
     list_all (\<lambda>x. fin_value x \<noteq> None) row \<and> sum_list (map (\<lambda>x. the (fin_value x)) row) = 1"

section \<open>Geometric path timing: minTimeToVisitAllPoints\<close>

text \<open>
  The JavaScript function walks over the array of points with an index \<open>i\<close> that starts
  at 1, destructures \<open>points[i - 1]\<close> and \<open>points[i]\<close> into their two coordinates and adds
  \<open>Math.max(Math.abs(x2 - x1), Math.abs(y2 - y1))\<close> to \<open>totalTime\<close>. A point is a
  two-element array of integers, modelled as a pair of \<open>int\<close> (JavaScript numbers are
  exact on integers up to \<open>2\<^sup>5\<^sup>3\<close>; larger coordinates are outside the model); the loop is a recursive
  function on the index, the accumulator being \<open>totalTime\<close>. The reads \<open>points ! (i - 1)\<close>
  and \<open>points ! i\<close> happen only under the loop guard \<open>i < length points\<close> with \<open>1 \<le> i\<close>,
  so they are in range.
\<close>

type_synonym point = "int \<times> int"




text \<open>
  The specification side, from the problem statement in the file's header comment: in one
  second the walker moves one unit vertically, one unit horizontally, or one unit in both
  directions. \<open>chebyshev p q\<close> is \<open>max \<bar>x2 - x1\<bar> \<bar>y2 - y1\<bar>\<close> for two points, \<open>walk w\<close> says that the list
  of positions \<open>w\<close> (one per second) makes only such moves, and \<open>visits_in_order w ps\<close>
  that \<open>w\<close> passes through the points of \<open>ps\<close> in their order. \<open>path\<close> and \<open>tour\<close> construct
  a fastest walk; they are used only to show that the bound is attained.
\<close>

definition chebyshev :: "point \<Rightarrow> point \<Rightarrow> int" where
  "chebyshev p q = max \<bar>fst q - fst p\<bar> \<bar>snd q - snd p\<bar>"







section \<open>Spiral matrix generation: spiralMatrixc\<close>

text \<open>
  The JavaScript function builds an \<open>n \<times> n\<close> array of zeros and keeps four boundaries
  \<open>top\<close>, \<open>bottom\<close>, \<open>left\<close>, \<open>right\<close>, the next number \<open>current\<close> and \<open>max = n * n\<close>. The
  boundaries and the loop indices are integers (\<open>bottom\<close> and \<open>right\<close> start at \<open>n - 1\<close> and are
  decremented), so they are \<open>int\<close>; the matrix is a list of rows.

  An assignment \<open>matrix[r][c] = v\<close> with \<open>r\<close> outside the array reads \<open>matrix[r]\<close> as
  \<open>undefined\<close> and throws a \<open>TypeError\<close>. With \<open>r\<close> inside and \<open>c\<close> outside the row, JavaScript
  would grow the row or add a property that is no element; the model does not follow the
  computation there and stops with \<open>OutsideRow\<close>. The properties below show that neither
  happens.
\<close>

datatype js_error = TypeError | OutsideRow

record spiral_state =
  matrix :: "int list list"
  top :: int
  bottom :: int
  left :: int
  right :: int
  current :: int

definition set_cell :: "int list list \<Rightarrow> int \<Rightarrow> int \<Rightarrow> int \<Rightarrow> js_error + int list list" where
  "set_cell m r c v =
     (if r < 0 \<or> int (length m) \<le> r then Inl TypeError
      else if c < 0 \<or> int (length (m ! nat r)) \<le> c then Inl OutsideRow
      else Inr (m[nat r := (m ! nat r)[nat c := v]]))"

text \<open>
  The four \<open>for\<close> loops of one round. Each takes \<open>max\<close>, the loop index and the state, and
  performs \<open>matrix[..][..] = current++\<close> while its condition holds.
\<close>

function fill_top_row :: "int \<Rightarrow> int \<Rightarrow> spiral_state \<Rightarrow> js_error + spiral_state" where
  "fill_top_row maxv col s =
     (if col \<le> right s \<and> current s \<le> maxv then
        (case set_cell (matrix s) (top s) col (current s) of
           Inl e \<Rightarrow> Inl e
         | Inr m \<Rightarrow> fill_top_row maxv (col + 1) (s\<lparr>matrix := m, current := current s + 1\<rparr>))
      else Inr s)"
  by pat_completeness auto
termination
  by (relation "measure (\<lambda>(maxv, col, s). nat (right s + 1 - col))") auto

function fill_right_column :: "int \<Rightarrow> int \<Rightarrow> spiral_state \<Rightarrow> js_error + spiral_state" where
  "fill_right_column maxv row s =
     (if row \<le> bottom s \<and> current s \<le> maxv then
        (case set_cell (matrix s) row (right s) (current s) of
           Inl e \<Rightarrow> Inl e
         | Inr m \<Rightarrow> fill_right_column maxv (row + 1) (s\<lparr>matrix := m, current := current s + 1\<rparr>))
      else Inr s)"
  by pat_completeness auto
termination
  by (relation "measure (\<lambda>(maxv, row, s). nat (bottom s + 1 - row))") auto

function fill_bottom_row :: "int \<Rightarrow> int \<Rightarrow> spiral_state \<Rightarrow> js_error + spiral_state" where
  "fill_bottom_row maxv col s =
     (if col \<ge> left s \<and> current s \<le> maxv then
        (case set_cell (matrix s) (bottom s) col (current s) of
           Inl e \<Rightarrow> Inl e
         | Inr m \<Rightarrow> fill_bottom_row maxv (col - 1) (s\<lparr>matrix := m, current := current s + 1\<rparr>))
      else Inr s)"
  by pat_completeness auto
termination
  by (relation "measure (\<lambda>(maxv, col, s). nat (col + 1 - left s))") auto

function fill_left_column :: "int \<Rightarrow> int \<Rightarrow> spiral_state \<Rightarrow> js_error + spiral_state" where
  "fill_left_column maxv row s =
     (if row \<ge> top s \<and> current s \<le> maxv then
        (case set_cell (matrix s) row (left s) (current s) of
           Inl e \<Rightarrow> Inl e
         | Inr m \<Rightarrow> fill_left_column maxv (row - 1) (s\<lparr>matrix := m, current := current s + 1\<rparr>))
      else Inr s)"
  by pat_completeness auto
termination
  by (relation "measure (\<lambda>(maxv, row, s). nat (row + 1 - top s))") auto

declare fill_top_row.simps [simp del] fill_right_column.simps [simp del]
  fill_bottom_row.simps [simp del] fill_left_column.simps [simp del]

text \<open>The body of the \<open>while\<close> loop: the four loops, each followed by the move of its
  boundary.\<close>

definition spiral_round :: "int \<Rightarrow> spiral_state \<Rightarrow> js_error + spiral_state" where
  "spiral_round maxv s =
     (case fill_top_row maxv (left s) s of
        Inl e \<Rightarrow> Inl e
      | Inr s1 \<Rightarrow>
     (let s1 = s1\<lparr>top := top s1 + 1\<rparr>
      in case fill_right_column maxv (top s1) s1 of
           Inl e \<Rightarrow> Inl e
         | Inr s2 \<Rightarrow>
     (let s2 = s2\<lparr>right := right s2 - 1\<rparr>
      in case fill_bottom_row maxv (right s2) s2 of
           Inl e \<Rightarrow> Inl e
         | Inr s3 \<Rightarrow>
     (let s3 = s3\<lparr>bottom := bottom s3 - 1\<rparr>
      in case fill_left_column maxv (bottom s3) s3 of
           Inl e \<Rightarrow> Inl e
         | Inr s4 \<Rightarrow> Inr (s4\<lparr>left := left s4 + 1\<rparr>)))))"

text \<open>
  \<open>while (current <= max)\<close>. Nothing in the loop itself bounds the number of rounds (a
  round that writes no cell leaves \<open>current\<close> as it is), so the loop is a partial function:
  \<open>None\<close> is the loop that runs forever.
\<close>

partial_function (option) spiral_while :: "int \<Rightarrow> spiral_state \<Rightarrow> (js_error + spiral_state) option" where
  "spiral_while maxv s =
     (if current s \<le> maxv then
        (case spiral_round maxv s of
           Inl e \<Rightarrow> Some (Inl e)
         | Inr s' \<Rightarrow> spiral_while maxv s')
      else Some (Inr s))"

declare spiral_while.simps [code]

definition spiralMatrixc :: "nat \<Rightarrow> (js_error + int list list) option" where
  "spiralMatrixc n =
     (let s = \<lparr>matrix = replicate n (replicate n 0),
                top = 0, bottom = int n - 1, left = 0, right = int n - 1,
                current = 1\<rparr>;
          maxv = int n * int n
      in case spiral_while maxv s of
           None \<Rightarrow> None
         | Some (Inl e) \<Rightarrow> Some (Inl e)
         | Some (Inr s') \<Rightarrow> Some (Inr (matrix s')))"

subsection \<open>Clockwise spiral order\<close>

text \<open>
  The reference order. \<open>ring k m\<close> is the border of the square of side \<open>m\<close> whose top-left
  corner is \<open>(k, k)\<close>, walked clockwise from that corner: the top row from left to right, the
  right column downwards, the bottom row from right to left, the left column upwards.
  \<open>spiral_from k m\<close> is that border followed by the spiral of the square inside it, and
  \<open>spiral_cells n\<close> the clockwise spiral of the \<open>n \<times> n\<close> square from its top-left corner. A
  cell is (row, column).
\<close>

definition ring :: "nat \<Rightarrow> nat \<Rightarrow> (nat \<times> nat) list" where
  "ring k m =
       map (\<lambda>j. (k, k + j)) [0..<m]
     @ map (\<lambda>i. (k + i, k + m - 1)) [1..<m]
     @ map (\<lambda>j. (k + m - 1, k + m - 1 - j)) [1..<m]
     @ map (\<lambda>i. (k + m - 1 - i, k)) [1..<m - 1]"

fun spiral_from :: "nat \<Rightarrow> nat \<Rightarrow> (nat \<times> nat) list" where
  "spiral_from k m = (if m = 0 then [] else ring k m @ spiral_from (k + 1) (m - 2))"

declare spiral_from.simps [simp del]

definition spiral_cells :: "nat \<Rightarrow> (nat \<times> nat) list" where
  "spiral_cells n = spiral_from 0 n"

text \<open>
  For the proofs: the matrix after the numbers \<open>v, v + 1, ...\<close> have been written to the
  cells of a list, in its order.
\<close>

fun apply_writes :: "int list list \<Rightarrow> (nat \<times> nat) list \<Rightarrow> int \<Rightarrow> int list list" where
  "apply_writes m [] v = m"
| "apply_writes m ((r, c) # cells) v = apply_writes (m[r := (m ! r)[c := v]]) cells (v + 1)"

definition is_square :: "nat \<Rightarrow> int list list \<Rightarrow> bool" where
  "is_square n m \<longleftrightarrow> length m = n \<and> list_all (\<lambda>row. length row = n) m"

text \<open>Two cells are neighbours when they differ by one step in one coordinate.\<close>

definition adjacent :: "nat \<times> nat \<Rightarrow> nat \<times> nat \<Rightarrow> bool" where
  "adjacent p q \<longleftrightarrow>
     (fst p = fst q \<and> (snd q = snd p + 1 \<or> snd p = snd q + 1))
     \<or> (snd p = snd q \<and> (fst q = fst p + 1 \<or> fst p = fst q + 1))"

section \<open>Grid flood fill: orangesRotting\<close>

text \<open>
  The JavaScript function takes a grid (an array of rows of numbers) or \<open>null\<close>; the model
  takes an \<open>int list list option\<close>, with \<open>None\<close> for \<open>null\<close>. A JavaScript function returns
  a number through \<open>return\<close> and \<open>undefined\<close> when control reaches the end of its body, so
  the result type has both. Reading \<open>grid[r][c]\<close> beyond the end of row \<open>r\<close> gives
  \<open>undefined\<close>, which is \<open>===\<close> neither to 2 nor to 1: \<open>cell\<close> returns \<open>None\<close> there. The
  number of columns is the length of row 0, as in the source.
\<close>

datatype js_result = Num int | Undefined

type_synonym grid = "int list list"

text \<open>A queue entry is the array \<open>[row, col, minute]\<close>.\<close>

type_synonym queue_entry = "nat \<times> nat \<times> nat"

definition cell :: "grid \<Rightarrow> nat \<Rightarrow> nat \<Rightarrow> int option" where
  "cell g r c = (if c < length (g ! r) then Some (g ! r ! c) else None)"

text \<open>
  Step 1 of the source, the two nested \<open>for\<close> loops: the body for one cell, the inner loop
  over the columns of one row, and the outer loop over the rows. The state is the queue
  of rotten oranges and \<open>freshCount\<close>. The outer loop reads \<open>grid[r]\<close> only for
  \<open>r < rows = grid.length\<close>.
\<close>

definition scan_cell :: "grid \<Rightarrow> nat \<Rightarrow> nat \<Rightarrow> queue_entry list \<times> nat \<Rightarrow> queue_entry list \<times> nat" where
  "scan_cell g r c st =
     (case st of (queue, freshCount) \<Rightarrow>
        if cell g r c = Some 2 then (queue @ [(r, c, 0)], freshCount)
        else if cell g r c = Some 1 then (queue, freshCount + 1)
        else (queue, freshCount))"

definition scan_row :: "grid \<Rightarrow> nat \<Rightarrow> nat \<Rightarrow> queue_entry list \<times> nat \<Rightarrow> queue_entry list \<times> nat" where
  "scan_row g cols r st = fold (scan_cell g r) [0..<cols] st"

definition scan_grid :: "grid \<Rightarrow> nat \<Rightarrow> nat \<Rightarrow> queue_entry list \<times> nat" where
  "scan_grid g rows cols = fold (scan_row g cols) [0..<rows] ([], 0)"

definition directions :: "(int \<times> int) list" where
  "directions = [(1, 0), (-1, 0), (0, 1), (0, -1)]"

text \<open>
  The \<open>while (queue.length > 0)\<close> loop as the source has it: it takes the head of the queue
  with \<open>queue.shift()\<close>, and for each of the four directions computes \<open>newRow\<close> and
  \<open>newCol\<close>; the body of the inner loop ends there (after an unfinished comment), so
  nothing is pushed, no cell is changed and neither \<open>freshCount\<close> nor \<open>minutes\<close> is
  updated. The loop returns the queue it is left with.
\<close>

fun drain_queue :: "queue_entry list \<Rightarrow> queue_entry list" where
  "drain_queue [] = []"
| "drain_queue ((row, col, minute) # queue) =
     (let neighbours = map (\<lambda>(dx, dy). (int row + dx, int col + dy)) directions
      in drain_queue queue)"

text \<open>
  The whole function. After the \<open>while\<close> loop the source has no \<open>return\<close>: the call
  evaluates to \<open>undefined\<close>.
\<close>

definition orangesRotting :: "grid option \<Rightarrow> js_result" where
  "orangesRotting grid =
     (case grid of
        None \<Rightarrow> Num (- 1)
      | Some g \<Rightarrow>
          if length g = 0 then Num (- 1)
          else
            let rows = length g;
                cols = length (g ! 0);
                minutes = (0 :: int);
                (queue, freshCount) = scan_grid g rows cols
            in if freshCount = 0 then Num 0
               else (let queue' = drain_queue queue in Undefined))"

section \<open>Option pricing: black_scholes\<close>

text \<open>
  The notebook defines \<open>black_scholes(S, X, T, r, sigma, option_type="call")\<close>. Its body
  never reads the parameter \<open>X\<close>; it reads the name \<open>K\<close>, which is not a parameter and
  not a local variable, so Python looks it up among the notebook's globals when the function
  runs (a later cell assigns \<open>K = 100\<close>). The model therefore takes the global \<open>K\<close> as an
  argument of its own, \<open>None\<close> when no cell has bound it yet, and keeps \<open>X\<close> as the unused
  parameter it is. \<open>scipy.stats.norm.cdf(x, 0.0, 1.0)\<close> is a library function; the model
  takes it as the parameter \<open>norm_cdf\<close>.

  \<open>S / K\<close> divides Python numbers and raises \<open>ZeroDivisionError\<close> for \<open>K = 0\<close>. Where numpy
  would go on with \<open>nan\<close> or an infinity (the logarithm of a number that is not positive,
  the square root of a negative number, the division by \<open>sigma * np.sqrt(T) = 0\<close>) the model
  stops with \<open>NonFinite\<close>.
\<close>

definition black_scholes ::
  "real option \<Rightarrow> (real \<Rightarrow> real) \<Rightarrow> real \<Rightarrow> real \<Rightarrow> real \<Rightarrow> real \<Rightarrow> real \<Rightarrow> string \<Rightarrow> py_error + real" where
  "black_scholes K_global norm_cdf S X T r sigma option_type =
     (case K_global of
        None \<Rightarrow> Inl NameError
      | Some K \<Rightarrow>
          if K = 0 then Inl ZeroDivisionError
          else if S / K \<le> 0 \<or> T < 0 \<or> sigma * sqrt T = 0 then Inl NonFinite
          else
            let d1 = (ln (S / K) + (r + 0.5 * sigma ^ 2) * T) / (sigma * sqrt T);
                d2 = d1 - sigma * sqrt T
            in if option_type = ''call''
               then Inr (S * norm_cdf d1 - K * exp (- r * T) * norm_cdf d2)
               else Inr (K * exp (- r * T) * norm_cdf (- d2) - S * norm_cdf (- d1)))"

text \<open>
  The closed form as the specification words it, a function of the strike \<open>X\<close>:
  \<open>d1 = (ln (S / X) + (r + sigma\<^sup>2 / 2) T) / (sigma sqrt T)\<close>, \<open>d2 = d1 - sigma sqrt T\<close>, the call
  price \<open>S N(d1) - X exp(- r T) N(d2)\<close> and the put price \<open>X exp(- r T) N(- d2) - S N(- d1)\<close>.
\<close>

definition black_scholes_formula ::
  "(real \<Rightarrow> real) \<Rightarrow> real \<Rightarrow> real \<Rightarrow> real \<Rightarrow> real \<Rightarrow> real \<Rightarrow> bool \<Rightarrow> real" where
  "black_scholes_formula N S X T r sigma is_call =
     (let d1 = (ln (S / X) + (r + sigma ^ 2 / 2) * T) / (sigma * sqrt T);
          d2 = d1 - sigma * sqrt T
      in if is_call then S * N d1 - X * exp (- r * T) * N d2
         else X * exp (- r * T) * N (- d2) - S * N (- d1))"

section \<open>Option pricing: monte_carlo_option\<close>

text \<open>
  \<open>np.random\<close> keeps one global generator state. \<open>np.random.seed(n)\<close> replaces that state by
  one that depends on \<open>n\<close> only, and \<open>np.random.standard_normal(k)\<close> returns an array of \<open>k\<close>
  samples computed from the state and leaves a new state behind. Both are library
  functions, taken as the fields of a parameter \<open>rng\<close>; the global state is passed in and
  handed back.

  \<open>np.sqrt(T)\<close> is \<open>nan\<close> for a negative \<open>T\<close> and \<open>np.mean\<close> of an empty array is \<open>nan\<close>; the
  model returns \<open>NonFinite\<close> there. Seeding and drawing come first in the source, so they
  happen in those cases too.
\<close>

record 'g np_random =
  seed :: "nat \<Rightarrow> 'g"
  standard_normal :: "'g \<Rightarrow> nat \<Rightarrow> real list \<times> 'g"

definition monte_carlo_option ::
  "'g np_random \<Rightarrow> 'g \<Rightarrow> real \<Rightarrow> real \<Rightarrow> real \<Rightarrow> real \<Rightarrow> real \<Rightarrow> nat \<Rightarrow> string \<Rightarrow> (py_error + real) \<times> 'g" where
  "monte_carlo_option rng g S K T r sigma num_simulations option_type =
     (let g1 = seed rng 42;
          (Z, g2) = standard_normal rng g1 num_simulations
      in if T < 0 \<or> Z = [] then (Inl NonFinite, g2)
         else
           let S_T = map (\<lambda>z. S * exp ((r - 0.5 * sigma ^ 2) * T + sigma * sqrt T * z)) Z;
               option_payoff =
                 (if option_type = ''call'' then map (\<lambda>s. max (s - K) 0) S_T
                  else map (\<lambda>s. max (K - s) 0) S_T)
           in (Inr (exp (- r * T) * (sum_list option_payoff / real (length option_payoff))), g2))"

section \<open>Risk management: RiskManager.size_position\<close>

text \<open>
  The class stores its three constructor arguments. \<open>size_position\<close> divides \<open>vol_target\<close>
  by \<open>realized_vol + 1e-8\<close> and takes the smaller of the quotient and \<open>max_position\<close>.
  Python's \<open>min(a, b)\<close> returns \<open>b\<close> when \<open>b < a\<close> and \<open>a\<close> otherwise, which on real numbers is
  \<open>min a b\<close>. A zero divisor raises \<open>ZeroDivisionError\<close> when the operands are Python floats
  (with a numpy float the quotient would be infinite); the model returns the error.
\<close>

record RiskManager =
  max_position :: real
  vol_target :: real
  stop_loss :: real


definition check_stop_loss :: "RiskManager \<Rightarrow> real \<Rightarrow> bool" where
  "check_stop_loss self pnl \<longleftrightarrow> pnl < stop_loss self"

chapter \<open>The properties\<close>

subsection \<open>HiddenMarkovModel.forward\<close>


lemma distinct_state_sequences: "distinct (state_sequences n k)"
proof (induction k)
  case (Suc k)
  show ?case
  proof (cases "n = 0")
    case True
    have "concat (replicate m []) = ([] :: nat list list)" for m
      by (induction m) auto
    with True show ?thesis by (simp add: map_replicate_const)
  next
    case False
    have inj: "inj (\<lambda>qs. map (\<lambda>i. qs @ [i]) [0..<n])"
      using False by (auto simp: inj_on_def upt_conv_Cons)
    show ?thesis
      unfolding state_sequences.simps
    proof (rule distinct_concat)
      show "distinct (map (\<lambda>qs. map (\<lambda>i. qs @ [i]) [0..<n]) (state_sequences n k))"
        using Suc inj by (simp add: distinct_map inj_on_def)
    qed (auto simp: distinct_map inj_on_def)
  qed
qed simp


















subsection \<open>HiddenMarkovModel.baum_welch_train\<close>


















subsection \<open>estimate_transition_matrix\<close>

lemma sum_list_update_add:
  "j < length xs \<Longrightarrow> sum_list (xs[j := xs ! j + d]) = sum_list xs + (d :: real)"
proof (induction xs arbitrary: j)
  case Nil
  then show ?case by simp
next
  case (Cons x xs)
  then show ?case by (cases j) simp_all
qed

lemma py_index_in_range: "0 \<le> i \<Longrightarrow> i < int n \<Longrightarrow> py_index n i = Inr (nat i)"
  by (simp add: py_index_def)

lemma count_transitions_row_sums:
  "length mat = n \<Longrightarrow> list_all (\<lambda>row. length row = n) mat \<Longrightarrow>
   \<forall>(a, b) \<in> set pairs. 0 \<le> a \<and> a < int n \<and> 0 \<le> b \<and> b < int n \<Longrightarrow>
   \<exists>mat'. count_transitions n pairs mat = Inr mat'
      \<and> length mat' = n \<and> list_all (\<lambda>row. length row = n) mat'
      \<and> (\<forall>i<n. sum_list (mat' ! i)
             = sum_list (mat ! i) + real (count_list (map fst pairs) (int i)))"
proof (induction pairs arbitrary: mat)
  case Nil
  then show ?case by simp
next
  case (Cons p pairs)
  obtain a b where p: "p = (a, b)" by (cases p)
  with Cons.prems(3) have ab: "0 \<le> a" "a < int n" "0 \<le> b" "b < int n" by auto
  let ?i = "nat a" and ?j = "nat b"
  let ?m1 = "mat[?i := (mat ! ?i)[?j := mat ! ?i ! ?j + 1]]"
  from ab have ij: "?i < n" "?j < n" by simp_all
  have row: "length (mat ! ?i) = n"
    using Cons.prems(1,2) ij by (simp add: list_all_length)
  have len1: "length ?m1 = n" using Cons.prems(1) by simp
  have rows1: "list_all (\<lambda>row. length row = n) ?m1"
    unfolding list_all_length
  proof (intro allI impI)
    fix r assume "r < length ?m1"
    then show "length (?m1 ! r) = n"
      using Cons.prems(1,2) by (cases "r = ?i") (simp_all add: list_all_length)
  qed
  have sums1: "sum_list (?m1 ! i) = sum_list (mat ! i) + (if int i = a then 1 else 0)"
    if "i < n" for i
  proof (cases "i = ?i")
    case True
    with ij row Cons.prems(1) ab show ?thesis by (simp add: sum_list_update_add)
  next
    case False
    with ab have "int i \<noteq> a" by auto
    with False show ?thesis by simp
  qed
  from Cons.prems(3) have rest: "\<forall>(a, b) \<in> set pairs. 0 \<le> a \<and> a < int n \<and> 0 \<le> b \<and> b < int n"
    by simp
  from Cons.IH[OF len1 rows1 rest] obtain mat' where
    m': "count_transitions n pairs ?m1 = Inr mat'" "length mat' = n"
      "list_all (\<lambda>row. length row = n) mat'"
      "\<forall>i<n. sum_list (mat' ! i) = sum_list (?m1 ! i) + real (count_list (map fst pairs) (int i))"
    by blast
  have "count_transitions n (p # pairs) mat = Inr mat'"
    using m'(1) ab by (simp add: p py_index_in_range)
  moreover have "\<forall>i<n. sum_list (mat' ! i)
             = sum_list (mat ! i) + real (count_list (map fst (p # pairs)) (int i))"
    using m'(4) sums1 by (auto simp: p)
  ultimately show ?case using m'(2,3) by blast
qed


lemma count_transitions_nonneg:
  "count_transitions n pairs mat = Inr mat' \<Longrightarrow>
   \<forall>row \<in> set mat. \<forall>x \<in> set row. 0 \<le> x \<Longrightarrow>
   \<forall>row \<in> set mat'. \<forall>x \<in> set row. 0 \<le> x"
proof (induction n pairs mat rule: count_transitions.induct)
  case (1 n mat)
  then show ?case by simp
next
  case (2 n a b pairs mat)
  from "2.prems"(1) obtain i j where ij: "py_index n a = Inr i" "py_index n b = Inr j"
    and rec: "count_transitions n pairs (mat[i := (mat ! i)[j := mat ! i ! j + 1]]) = Inr mat'"
    by (auto split: sum.splits)
  let ?m1 = "mat[i := (mat ! i)[j := mat ! i ! j + 1]]"
  have "\<forall>row \<in> set ?m1. \<forall>x \<in> set row. 0 \<le> x"
  proof (intro ballI)
    fix row x assume row: "row \<in> set ?m1" and x: "x \<in> set row"
    from row have "row \<in> set mat \<or> row = (mat ! i)[j := mat ! i ! j + 1]"
      using set_update_subset_insert[of mat i] by auto
    then show "0 \<le> x"
    proof
      assume "row \<in> set mat"
      with x "2.prems"(2) show ?thesis by blast
    next
      assume r: "row = (mat ! i)[j := mat ! i ! j + 1]"
      show ?thesis
      proof (cases "i < length mat \<and> j < length (mat ! i)")
        case True
        then have "mat ! i \<in> set mat" by simp
        with "2.prems"(2) have old: "\<forall>y \<in> set (mat ! i). 0 \<le> y" by blast
        from True have "0 \<le> mat ! i ! j" using old by simp
        moreover from x r have "x \<in> insert (mat ! i ! j + 1) (set (mat ! i))"
          using set_update_subset_insert[of "mat ! i" j "mat ! i ! j + 1"] by blast
        ultimately show ?thesis using old by auto
      next
        case False
        then have "?m1 = mat" by (auto simp: list_update_beyond)
        with row x "2.prems"(2) show ?thesis by auto
      qed
    qed
  qed
  from "2.IH"[OF ij rec this] show ?case .
qed

text \<open>
  What the function does for states in range: every row of a state that has a successor in
  the sequence (it occurs in \<open>states[:-1]\<close>) sums to 1, and every other row consists of
  \<open>nan\<close>.
\<close>

lemma estimate_transition_matrix_rows:
  assumes "\<forall>s \<in> set states. 0 \<le> s \<and> s < int num_states"
  shows "\<exists>tm. estimate_transition_matrix states num_states = Inr tm
      \<and> length tm = num_states
      \<and> (\<forall>i<num_states.
            (int i \<in> set (butlast states) \<longrightarrow> row_sums_to_one (tm ! i))
          \<and> (int i \<notin> set (butlast states) \<longrightarrow> tm ! i = replicate num_states NaN))"
proof -
  let ?n = num_states
  let ?pairs = "zip (butlast states) (tl states)"
  let ?z = "np_zeros ?n ?n"
  have fsts: "map fst ?pairs = butlast states" by (simp add: map_fst_zip)
  have inr: "\<forall>(a, b) \<in> set ?pairs. 0 \<le> a \<and> a < int ?n \<and> 0 \<le> b \<and> b < int ?n"
  proof (intro ballI, clarify)
    fix a b assume ab: "(a, b) \<in> set ?pairs"
    then have "a \<in> set (butlast states)" "b \<in> set (tl states)"
      by (auto dest: set_zip_leftD set_zip_rightD)
    then have "a \<in> set states" "b \<in> set states"
      by (auto dest: in_set_butlastD list.set_sel(2)[rotated] simp: tl_Nil)
    with assms show "0 \<le> a \<and> a < int ?n \<and> 0 \<le> b \<and> b < int ?n" by blast
  qed
  have z: "length ?z = ?n" "list_all (\<lambda>row. length row = ?n) ?z"
    by (simp_all add: np_zeros_def list_all_iff)
  from count_transitions_row_sums[OF z inr] obtain mat where
    m: "count_transitions ?n ?pairs ?z = Inr mat" "length mat = ?n"
      "list_all (\<lambda>row. length row = ?n) mat"
      "\<forall>i<?n. sum_list (mat ! i) = sum_list (?z ! i) + real (count_list (map fst ?pairs) (int i))"
    by blast
  have nonneg: "\<forall>row \<in> set mat. \<forall>x \<in> set row. 0 \<le> x"
    by (rule count_transitions_nonneg[OF m(1)]) (simp add: np_zeros_def)
  let ?tm = "map2 (\<lambda>row s. map (\<lambda>x. np_divide x s) row) mat (map sum_list mat)"
  have res: "estimate_transition_matrix states ?n = Inr ?tm"
    using m(1) by (simp add: estimate_transition_matrix_def Let_def)
  have sums: "sum_list (mat ! i) = real (count_list (butlast states) (int i))" if "i < ?n" for i
    using m(4) that fsts by (simp add: np_zeros_def sum_list_replicate)
  have row: "?tm ! i = map (\<lambda>x. np_divide x (sum_list (mat ! i))) (mat ! i)" if "i < ?n" for i
    using that m(2) by simp
  have good: "row_sums_to_one (?tm ! i)" if "i < ?n" "int i \<in> set (butlast states)" for i
  proof -
    from that(2) have "0 < count_list (butlast states) (int i)"
      using count_list_0_iff[of "butlast states" "int i"] by auto
    with sums[OF that(1)] have nz: "sum_list (mat ! i) \<noteq> 0" by simp
    then have "?tm ! i = map (\<lambda>x. Fin (x / sum_list (mat ! i))) (mat ! i)"
      unfolding row[OF that(1)] by (simp add: np_divide_def)
    moreover have "sum_list (map (\<lambda>x. x / sum_list (mat ! i)) (mat ! i)) = 1"
    proof -
      have "sum_list (map (\<lambda>x. x / c) xs) = sum_list xs / (c :: real)" for xs c
        by (induction xs) (simp_all add: add_divide_distrib)
      with nz show ?thesis by simp
    qed
    ultimately show ?thesis
      by (simp add: row_sums_to_one_def list_all_iff comp_def)
  qed
  have bad: "?tm ! i = replicate ?n NaN" if "i < ?n" "int i \<notin> set (butlast states)" for i
  proof -
    from that(2) have "count_list (butlast states) (int i) = 0"
      using count_list_0_iff[of "butlast states" "int i"] by auto
    with sums[OF that(1)] have zero: "sum_list (mat ! i) = 0" by simp
    have mem: "mat ! i \<in> set mat" using that(1) m(2) by simp
    with nonneg have nn: "\<forall>x \<in> set (mat ! i). 0 \<le> x" by blast
    with zero have "\<forall>x \<in> set (mat ! i). x = 0"
      using sum_list_nonneg_eq_0_iff[of "mat ! i"] by blast
    moreover have "length (mat ! i) = ?n" using m(2,3) that(1) by (simp add: list_all_length)
    ultimately show ?thesis
      unfolding row[OF that(1)] zero
      by (intro replicate_eqI) (auto simp: np_divide_def)
  qed
  from res good bad m(2) show ?thesis by auto
qed

text \<open>
  Claim C3. The claim promises a nonzero divisor for every row and rows that sum to 1 for
  every sequence of at least two states in range, also when some state never occurs. On
  \<open>states = [0, 0]\<close> with two states, and on \<open>[0, 1]\<close> where both states occur, the row of
  state 1 counts no transition: its divisor is 0, numpy returns \<open>nan\<close> for each of its
  entries, and the row does not sum to 1.
\<close>

theorem estimate_transition_matrix_zero_row:
  "estimate_transition_matrix [0, 0] 2 = Inr [[Fin 1, Fin 0], [NaN, NaN]]
   \<and> estimate_transition_matrix [0, 1] 2 = Inr [[Fin 0, Fin 1], [NaN, NaN]]
   \<and> \<not> row_sums_to_one [NaN, NaN]"
  by (simp add: estimate_transition_matrix_def np_zeros_def py_index_def np_divide_def
      row_sums_to_one_def numeral_2_eq_2)

subsection \<open>minTimeToVisitAllPoints\<close>





lemma chebyshev_self [simp]: "chebyshev p p = 0"
  by (simp add: chebyshev_def)

lemma chebyshev_nonneg: "0 \<le> chebyshev p q"
  by (auto simp: chebyshev_def)
























subsection \<open>spiralMatrixc\<close>

text \<open>The reference order visits every cell of the square exactly once.\<close>

lemma length_ring: "0 < m \<Longrightarrow> length (ring k m) + (m - 2) * (m - 2) = m * m"
proof -
  assume "0 < m"
  then consider "m = 1" | "2 \<le> m" by linarith
  then show ?thesis
  proof cases
    case 1
    then show ?thesis by (simp add: ring_def)
  next
    case 2
    then obtain p where "m = p + 2" by (metis add.commute le_Suc_ex)
    then show ?thesis by (simp add: ring_def algebra_simps)
  qed
qed

lemma length_spiral_from: "length (spiral_from k m) = m * m"
proof (induction k m rule: spiral_from.induct)
  case (1 k m)
  show ?case
  proof (cases "m = 0")
    case True
    then show ?thesis by (simp add: spiral_from.simps)
  next
    case False
    with 1 length_ring[of m k] show ?thesis
      by (subst spiral_from.simps) simp
  qed
qed

lemma set_ring:
  "0 < m \<Longrightarrow> set (ring k m) =
     {(r, c). k \<le> r \<and> r < k + m \<and> k \<le> c \<and> c < k + m
              \<and> (r = k \<or> r = k + m - 1 \<or> c = k \<or> c = k + m - 1)}"
proof (rule set_eqI, rule iffI)
  fix x assume m: "0 < m" and x: "x \<in> set (ring k m)"
  then show "x \<in> {(r, c). k \<le> r \<and> r < k + m \<and> k \<le> c \<and> c < k + m
              \<and> (r = k \<or> r = k + m - 1 \<or> c = k \<or> c = k + m - 1)}"
    by (auto simp: ring_def)
next
  fix x assume m: "0 < m" and x: "x \<in> {(r, c). k \<le> r \<and> r < k + m \<and> k \<le> c \<and> c < k + m
              \<and> (r = k \<or> r = k + m - 1 \<or> c = k \<or> c = k + m - 1)}"
  obtain r c where rc: "x = (r, c)" by (cases x)
  with x have b: "k \<le> r" "r < k + m" "k \<le> c" "c < k + m"
    and e: "r = k \<or> r = k + m - 1 \<or> c = k \<or> c = k + m - 1" by auto
  have top: "(r, c) \<in> (\<lambda>j. (k, k + j)) ` {0..<m}" if "r = k"
    using that b by (intro image_eqI[where x = "c - k"]) auto
  have right: "(r, c) \<in> (\<lambda>i. (k + i, k + m - 1)) ` {1..<m}" if "c = k + m - 1" "r \<noteq> k"
    using that b by (intro image_eqI[where x = "r - k"]) auto
  have bot: "(r, c) \<in> (\<lambda>j. (k + m - 1, k + m - 1 - j)) ` {1..<m}" if "r = k + m - 1" "c \<noteq> k + m - 1"
    using that b by (intro image_eqI[where x = "k + m - 1 - c"]) auto
  have left: "(r, c) \<in> (\<lambda>i. (k + m - 1 - i, k)) ` {1..<m - 1}" if "c = k" "r \<noteq> k" "r \<noteq> k + m - 1"
    using that b by (intro image_eqI[where x = "k + m - 1 - r"]) auto
  from e top right bot left show "x \<in> set (ring k m)"
    unfolding rc ring_def set_append set_map set_upt by blast
qed

lemma set_spiral_from: "set (spiral_from k m) = {k..<k + m} \<times> {k..<k + m}"
proof (induction k m rule: spiral_from.induct)
  case (1 k m)
  show ?case
  proof (cases "m = 0")
    case True
    then show ?thesis by (simp add: spiral_from.simps)
  next
    case False
    then have m: "0 < m" by simp
    have "set (spiral_from k m) = set (ring k m) \<union> {k + 1..<k + 1 + (m - 2)} \<times> {k + 1..<k + 1 + (m - 2)}"
      using 1[OF False] False by (subst spiral_from.simps) simp
    also have "\<dots> = {k..<k + m} \<times> {k..<k + m}"
      unfolding set_ring[OF m] by auto
    finally show ?thesis .
  qed
qed

lemma distinct_spiral_from: "distinct (spiral_from k m)"
proof (rule card_distinct)
  show "card (set (spiral_from k m)) = length (spiral_from k m)"
    by (simp add: set_spiral_from length_spiral_from)
qed


lemma successively_map_upt:
  "(\<And>i. a \<le> i \<Longrightarrow> Suc i < b \<Longrightarrow> P (f i) (f (Suc i))) \<Longrightarrow> successively P (map f [a..<b])"
  by (simp add: successively_conv_nth)

lemma ring_hd: "0 < m \<Longrightarrow> ring k m \<noteq> [] \<and> hd (ring k m) = (k, k)"
  by (simp add: ring_def hd_append hd_map upt_conv_Cons)

lemma ring_last: "3 \<le> m \<Longrightarrow> last (ring k m) = (k + 1, k)"
proof -
  assume m: "3 \<le> m"
  then have ne: "[1..<m - 1] \<noteq> []" by simp
  from m have lu: "last [1..<m - 1] = m - 2"
    using last_upt[of 1 "m - 1"] by simp
  have "last (ring k m) = (k + m - 1 - last [1..<m - 1], k)"
    unfolding ring_def using ne by (simp add: last_map last_append del: upt_eq_Nil_conv)
  with m lu show ?thesis by simp
qed

lemma successively_ring: "0 < m \<Longrightarrow> successively adjacent (ring k m)"
proof -
  assume "0 < m"
  then consider "m = 1" | "m = 2" | "3 \<le> m" by linarith
  then show ?thesis
  proof cases
    case 1
    then show ?thesis by (simp add: ring_def)
  next
    case 2
    then show ?thesis by (simp add: ring_def adjacent_def upt_rec[of _ "numeral _"] upt_rec[of "Suc _"])
  next
    case 3
    let ?s1 = "map (\<lambda>j. (k, k + j)) [0..<m]"
    let ?s2 = "map (\<lambda>i. (k + i, k + m - 1)) [1..<m]"
    let ?s3 = "map (\<lambda>j. (k + m - 1, k + m - 1 - j)) [1..<m]"
    let ?s4 = "map (\<lambda>i. (k + m - 1 - i, k)) [1..<m - 1]"
    have ne: "[0..<m] \<noteq> []" "[1..<m] \<noteq> []" "[1..<m - 1] \<noteq> []" using 3 by simp_all
    have s: "successively adjacent ?s1" "successively adjacent ?s2"
      "successively adjacent ?s3" "successively adjacent ?s4"
      by (rule successively_map_upt; simp add: adjacent_def; fail | rule successively_map_upt; auto simp: adjacent_def)+
    have h: "hd ?s2 = (k + 1, k + m - 1)" "hd ?s3 = (k + m - 1, k + m - 2)" "hd ?s4 = (k + m - 2, k)"
      using 3 by (simp_all add: hd_map upt_conv_Cons)
    have lu: "last [0..<m] = m - 1" "last [1..<m] = m - 1"
      using 3 last_upt[of 0 m] last_upt[of 1 m] by simp_all
    have l: "last ?s1 = (k, k + m - 1)" "last ?s2 = (k + m - 1, k + m - 1)" "last ?s3 = (k + m - 1, k)"
      using 3 ne lu by (simp_all add: last_map del: upt_eq_Nil_conv)
    have j: "adjacent (last ?s1) (hd ?s2)" "adjacent (last ?s2) (hd ?s3)" "adjacent (last ?s3) (hd ?s4)"
      unfolding h l using 3 by (auto simp: adjacent_def)
    show ?thesis
      unfolding ring_def using s j ne
      by (simp add: successively_append_iff hd_append del: upt_eq_Nil_conv)
  qed
qed

lemma successively_spiral_from: "successively adjacent (spiral_from k m)"
proof (induction k m rule: spiral_from.induct)
  case (1 k m)
  show ?case
  proof (cases "m = 0")
    case True
    then show ?thesis by (simp add: spiral_from.simps)
  next
    case False
    then have m: "0 < m" by simp
    have eq: "spiral_from k m = ring k m @ spiral_from (k + 1) (m - 2)"
      using False by (subst spiral_from.simps) simp
    show ?thesis
    proof (cases "m \<le> 2")
      case True
      then have "spiral_from (k + 1) (m - 2) = []" by (simp add: spiral_from.simps)
      with eq successively_ring[OF m] show ?thesis by simp
    next
      case False
      then have m3: "3 \<le> m" "0 < m - 2" by simp_all
      have "spiral_from (k + 1) (m - 2) = ring (k + 1) (m - 2) @ spiral_from (k + 1 + 1) (m - 2 - 2)"
        using m3 by (subst spiral_from.simps) simp
      with ring_hd[OF m3(2), of "k + 1"]
      have "hd (spiral_from (k + 1) (m - 2)) = (k + 1, k + 1)" by (simp add: hd_append)
      with ring_last[OF m3(1), of k] have "adjacent (last (ring k m)) (hd (spiral_from (k + 1) (m - 2)))"
        by (simp add: adjacent_def)
      with 1[OF \<open>m \<noteq> 0\<close>] successively_ring[OF m] show ?thesis
        unfolding eq by (simp add: successively_append_iff)
    qed
  qed
qed

text \<open>
  The reference order is a tour of the square: it has \<open>n\<^sup>2\<close> cells, visits every cell of the
  square once, starts in the top-left corner and goes from each cell to a neighbour.
\<close>

lemma spiral_cells_tour:
  "length (spiral_cells n) = n * n
   \<and> distinct (spiral_cells n)
   \<and> set (spiral_cells n) = {0..<n} \<times> {0..<n}
   \<and> successively adjacent (spiral_cells n)
   \<and> (0 < n \<longrightarrow> hd (spiral_cells n) = (0, 0))"
proof -
  have "hd (spiral_cells n) = (0, 0)" if "0 < n"
  proof -
    from that have "spiral_cells n = ring 0 n @ spiral_from (0 + 1) (n - 2)"
      unfolding spiral_cells_def by (subst spiral_from.simps) simp
    with ring_hd[OF that, of 0] show ?thesis by (simp add: hd_append)
  qed
  then show ?thesis
    by (simp add: spiral_cells_def length_spiral_from distinct_spiral_from set_spiral_from
        successively_spiral_from)
qed

lemma apply_writes_append:
  "apply_writes m (xs @ ys) v = apply_writes (apply_writes m xs v) ys (v + int (length xs))"
  by (induction m xs v rule: apply_writes.induct) (simp_all add: add.assoc)

lemma is_square_update:
  "is_square n m \<Longrightarrow> is_square n (m[r := (m ! r)[c := v]])"
proof -
  assume sq: "is_square n m"
  have "length (m[r := (m ! r)[c := v]] ! i) = n" if "i < length m" for i
    using that sq by (cases "i = r") (simp_all add: is_square_def list_all_length)
  with sq show ?thesis by (simp add: is_square_def list_all_length)
qed

lemma apply_writes_square: "is_square n m \<Longrightarrow> is_square n (apply_writes m cells v)"
  by (induction m cells v rule: apply_writes.induct) (simp_all add: is_square_update)

lemma set_cell_in_range:
  "is_square n m \<Longrightarrow> r < n \<Longrightarrow> c < n \<Longrightarrow>
   set_cell m (int r) (int c) v = Inr (m[r := (m ! r)[c := v]])"
  by (simp add: set_cell_def is_square_def list_all_length)

lemma fill_top_row_writes:
  "is_square n (matrix s) \<Longrightarrow> top s = int r \<Longrightarrow> r < n \<Longrightarrow> col = int c \<Longrightarrow>
   right s = int (c + len) - 1 \<Longrightarrow> c + len \<le> n \<Longrightarrow> current s + int len - 1 \<le> maxv \<Longrightarrow>
   fill_top_row maxv col s =
     Inr (s\<lparr>matrix := apply_writes (matrix s) (map (\<lambda>j. (r, c + j)) [0..<len]) (current s),
            current := current s + int len\<rparr>)"
proof (induction len arbitrary: c col s)
  case 0
  then show ?case by (subst fill_top_row.simps) simp
next
  case (Suc len)
  let ?m1 = "(matrix s)[r := (matrix s ! r)[c := current s]]"
  let ?s1 = "s\<lparr>matrix := ?m1, current := current s + 1\<rparr>"
  have cell: "set_cell (matrix s) (top s) col (current s) = Inr ?m1"
    using Suc.prems by (simp add: set_cell_in_range[where n = n])
  have cells: "map (\<lambda>j. (r, c + j)) [0..<Suc len] = (r, c) # map (\<lambda>j. (r, (c + 1) + j)) [0..<len]"
    by (simp add: upt_conv_Cons map_Suc_upt[symmetric] del: upt_Suc)
  have "fill_top_row maxv (col + 1) ?s1 =
     Inr (?s1\<lparr>matrix := apply_writes (matrix ?s1) (map (\<lambda>j. (r, (c + 1) + j)) [0..<len]) (current ?s1),
            current := current ?s1 + int len\<rparr>)"
    using Suc.prems by (intro Suc.IH) (simp_all add: is_square_update)
  then show ?case
    using Suc.prems cell unfolding cells
    by (subst fill_top_row.simps) (simp add: add.assoc)
qed


lemma fill_right_column_writes:
  "is_square n (matrix s) \<Longrightarrow> right s = int c \<Longrightarrow> c < n \<Longrightarrow> row = int r \<Longrightarrow>
   bottom s = int (r + len) - 1 \<Longrightarrow> r + len \<le> n \<Longrightarrow> current s + int len - 1 \<le> maxv \<Longrightarrow>
   fill_right_column maxv row s =
     Inr (s\<lparr>matrix := apply_writes (matrix s) (map (\<lambda>i. (r + i, c)) [0..<len]) (current s),
            current := current s + int len\<rparr>)"
proof (induction len arbitrary: r row s)
  case 0
  then show ?case by (subst fill_right_column.simps) simp
next
  case (Suc len)
  let ?m1 = "(matrix s)[r := (matrix s ! r)[c := current s]]"
  let ?s1 = "s\<lparr>matrix := ?m1, current := current s + 1\<rparr>"
  have cell: "set_cell (matrix s) row (right s) (current s) = Inr ?m1"
    using Suc.prems by (simp add: set_cell_in_range[where n = n])
  have cells: "map (\<lambda>i. (r + i, c)) [0..<Suc len] = (r, c) # map (\<lambda>i. ((r + 1) + i, c)) [0..<len]"
    by (simp add: upt_conv_Cons map_Suc_upt[symmetric] del: upt_Suc)
  have "fill_right_column maxv (row + 1) ?s1 =
     Inr (?s1\<lparr>matrix := apply_writes (matrix ?s1) (map (\<lambda>i. ((r + 1) + i, c)) [0..<len]) (current ?s1),
            current := current ?s1 + int len\<rparr>)"
    using Suc.prems by (intro Suc.IH) (simp_all add: is_square_update)
  then show ?case
    using Suc.prems cell unfolding cells
    by (subst fill_right_column.simps) (simp add: add.assoc)
qed

lemma fill_bottom_row_writes:
  "is_square n (matrix s) \<Longrightarrow> bottom s = int r \<Longrightarrow> r < n \<Longrightarrow> left s = int l \<Longrightarrow>
   col = int (l + len) - 1 \<Longrightarrow> l + len \<le> n \<Longrightarrow> current s + int len - 1 \<le> maxv \<Longrightarrow>
   fill_bottom_row maxv col s =
     Inr (s\<lparr>matrix := apply_writes (matrix s) (map (\<lambda>j. (r, l + len - 1 - j)) [0..<len]) (current s),
            current := current s + int len\<rparr>)"
proof (induction len arbitrary: col s)
  case 0
  then show ?case by (subst fill_bottom_row.simps) simp
next
  case (Suc len)
  let ?m1 = "(matrix s)[r := (matrix s ! r)[l + len := current s]]"
  let ?s1 = "s\<lparr>matrix := ?m1, current := current s + 1\<rparr>"
  have col: "col = int (l + len)" using Suc.prems by simp
  have cell: "set_cell (matrix s) (bottom s) col (current s) = Inr ?m1"
    using Suc.prems set_cell_in_range[of n "matrix s" r "l + len" "current s"]
    unfolding col by simp
  have cells: "map (\<lambda>j. (r, l + Suc len - 1 - j)) [0..<Suc len]
      = (r, l + len) # map (\<lambda>j. (r, l + len - 1 - j)) [0..<len]"
    by (simp add: upt_conv_Cons map_Suc_upt[symmetric] del: upt_Suc)
  have "fill_bottom_row maxv (col - 1) ?s1 =
     Inr (?s1\<lparr>matrix := apply_writes (matrix ?s1) (map (\<lambda>j. (r, l + len - 1 - j)) [0..<len]) (current ?s1),
            current := current ?s1 + int len\<rparr>)"
    using Suc.prems col by (intro Suc.IH) (simp_all add: is_square_update)
  then show ?case
    using Suc.prems cell col unfolding cells
    by (subst fill_bottom_row.simps) (simp add: add.assoc)
qed

lemma fill_left_column_writes:
  "is_square n (matrix s) \<Longrightarrow> left s = int c \<Longrightarrow> c < n \<Longrightarrow> top s = int t \<Longrightarrow>
   row = int (t + len) - 1 \<Longrightarrow> t + len \<le> n \<Longrightarrow> current s + int len - 1 \<le> maxv \<Longrightarrow>
   fill_left_column maxv row s =
     Inr (s\<lparr>matrix := apply_writes (matrix s) (map (\<lambda>i. (t + len - 1 - i, c)) [0..<len]) (current s),
            current := current s + int len\<rparr>)"
proof (induction len arbitrary: row s)
  case 0
  then show ?case by (subst fill_left_column.simps) simp
next
  case (Suc len)
  let ?m1 = "(matrix s)[t + len := (matrix s ! (t + len))[c := current s]]"
  let ?s1 = "s\<lparr>matrix := ?m1, current := current s + 1\<rparr>"
  have row: "row = int (t + len)" using Suc.prems by simp
  have cell: "set_cell (matrix s) row (left s) (current s) = Inr ?m1"
    using Suc.prems set_cell_in_range[of n "matrix s" "t + len" c "current s"]
    unfolding row by simp
  have cells: "map (\<lambda>i. (t + Suc len - 1 - i, c)) [0..<Suc len]
      = (t + len, c) # map (\<lambda>i. (t + len - 1 - i, c)) [0..<len]"
    by (simp add: upt_conv_Cons map_Suc_upt[symmetric] del: upt_Suc)
  have "fill_left_column maxv (row - 1) ?s1 =
     Inr (?s1\<lparr>matrix := apply_writes (matrix ?s1) (map (\<lambda>i. (t + len - 1 - i, c)) [0..<len]) (current ?s1),
            current := current ?s1 + int len\<rparr>)"
    using Suc.prems row by (intro Suc.IH) (simp_all add: is_square_update)
  then show ?case
    using Suc.prems cell row unfolding cells
    by (subst fill_left_column.simps) (simp add: add.assoc)
qed

lemma fill_left_column_none: "row < top s \<Longrightarrow> fill_left_column maxv row s = Inr s"
  by (subst fill_left_column.simps) simp


lemma map_upt_from_1: "0 < m \<Longrightarrow> map f [1..<m] = map (\<lambda>i. f (Suc i)) [0..<m - 1]"
proof -
  assume "0 < m"
  then have "[1..<m] = map Suc [0..<m - 1]" by (simp add: map_Suc_upt)
  then show ?thesis by (simp add: comp_def)
qed

lemma ring_segments:
  assumes "0 < m"
  shows "ring k m =
       map (\<lambda>j. (k, k + j)) [0..<m]
     @ map (\<lambda>i. ((k + 1) + i, k + m - 1)) [0..<m - 1]
     @ map (\<lambda>j. (k + m - 1, k + (m - 1) - 1 - j)) [0..<m - 1]
     @ map (\<lambda>i. ((k + 1) + (m - 2) - 1 - i, k)) [0..<m - 2]"
proof -
  have 2: "map (\<lambda>i. (k + i, k + m - 1)) [1..<m] = map (\<lambda>i. ((k + 1) + i, k + m - 1)) [0..<m - 1]"
    using map_upt_from_1[OF assms, of "\<lambda>i. (k + i, k + m - 1)"] by simp
  have 3: "map (\<lambda>j. (k + m - 1, k + m - 1 - j)) [1..<m]
      = map (\<lambda>j. (k + m - 1, k + (m - 1) - 1 - j)) [0..<m - 1]"
    using map_upt_from_1[OF assms, of "\<lambda>j. (k + m - 1, k + m - 1 - j)"] by simp
  have 4: "map (\<lambda>i. (k + m - 1 - i, k)) [1..<m - 1]
      = map (\<lambda>i. ((k + 1) + (m - 2) - 1 - i, k)) [0..<m - 2]"
  proof (cases "m = 1")
    case True
    then show ?thesis by simp
  next
    case False
    with assms have "0 < m - 1" by simp
    from map_upt_from_1[OF this, of "\<lambda>i. (k + m - 1 - i, k)"] False assms show ?thesis
      by (simp add: numeral_2_eq_2)
  qed
  show ?thesis unfolding ring_def 2 3 4 ..
qed

lemma spiral_round_ring:
  assumes sq: "is_square n (matrix s)"
    and t: "top s = int k" and l: "left s = int k"
    and b: "bottom s = int (k + m) - 1" and r: "right s = int (k + m) - 1"
    and m: "0 < m" and n: "k + m \<le> n"
    and g: "current s + int (length (ring k m)) - 1 \<le> maxv"
  shows "spiral_round maxv s =
     Inr \<lparr>matrix = apply_writes (matrix s) (ring k m) (current s),
          top = int k + 1, bottom = int (k + m) - 2, left = int k + 1, right = int (k + m) - 2,
          current = current s + int (length (ring k m))\<rparr>"
proof -
  let ?seg1 = "map (\<lambda>j. (k, k + j)) [0..<m]"
  let ?seg2 = "map (\<lambda>i. ((k + 1) + i, k + m - 1)) [0..<m - 1]"
  let ?seg3 = "map (\<lambda>j. (k + m - 1, k + (m - 1) - 1 - j)) [0..<m - 1]"
  let ?seg4 = "map (\<lambda>i. ((k + 1) + (m - 2) - 1 - i, k)) [0..<m - 2]"
  note rs = ring_segments[OF m, of k]
  have len: "length (ring k m) = m + (m - 1) + (m - 1) + (m - 2)"
    unfolding rs by simp
  let ?c0 = "current s"
  let ?M1 = "apply_writes (matrix s) ?seg1 ?c0"
  let ?c1 = "?c0 + int m"
  let ?s1 = "s\<lparr>matrix := ?M1, current := ?c1\<rparr>"
  have f1: "fill_top_row maxv (left s) s = Inr ?s1"
    using sq t l r m n g len by (intro fill_top_row_writes[where n = n]) auto
  let ?s1' = "?s1\<lparr>top := top ?s1 + 1\<rparr>"
  let ?M2 = "apply_writes ?M1 ?seg2 ?c1"
  let ?c2 = "?c1 + int (m - 1)"
  let ?s2 = "?s1'\<lparr>matrix := ?M2, current := ?c2\<rparr>"
  have sq1: "is_square n ?M1" using sq by (rule apply_writes_square)
  have "fill_right_column maxv (top ?s1') ?s1' =
      Inr (?s1'\<lparr>matrix := apply_writes (matrix ?s1') ?seg2 (current ?s1'),
                  current := current ?s1' + int (m - 1)\<rparr>)"
    by (rule fill_right_column_writes[where n = n and c = "k + m - 1" and r = "k + 1"])
       (use sq1 t l b r m n g len in simp_all)
  then have f2: "fill_right_column maxv (top ?s1') ?s1' = Inr ?s2" by simp
  let ?s2' = "?s2\<lparr>right := right ?s2 - 1\<rparr>"
  let ?M3 = "apply_writes ?M2 ?seg3 ?c2"
  let ?c3 = "?c2 + int (m - 1)"
  let ?s3 = "?s2'\<lparr>matrix := ?M3, current := ?c3\<rparr>"
  have sq2: "is_square n ?M2" using sq1 by (rule apply_writes_square)
  have "fill_bottom_row maxv (right ?s2') ?s2' =
      Inr (?s2'\<lparr>matrix := apply_writes (matrix ?s2') ?seg3 (current ?s2'),
                  current := current ?s2' + int (m - 1)\<rparr>)"
    by (rule fill_bottom_row_writes[where n = n and r = "k + m - 1" and l = k])
       (use sq2 t l b r m n g len in simp_all)
  then have f3: "fill_bottom_row maxv (right ?s2') ?s2' = Inr ?s3" by simp
  let ?s3' = "?s3\<lparr>bottom := bottom ?s3 - 1\<rparr>"
  let ?M4 = "apply_writes ?M3 ?seg4 ?c3"
  let ?c4 = "?c3 + int (m - 2)"
  let ?s4 = "?s3'\<lparr>matrix := ?M4, current := ?c4\<rparr>"
  have sq3: "is_square n ?M3" using sq2 by (rule apply_writes_square)
  have f4: "fill_left_column maxv (bottom ?s3') ?s3' = Inr ?s4"
  proof (cases "m = 1")
    case True
    then have "fill_left_column maxv (bottom ?s3') ?s3' = Inr ?s3'"
      using t b by (intro fill_left_column_none) simp
    with True show ?thesis by simp
  next
    case False
    with m have m2: "2 \<le> m" by simp
    have "fill_left_column maxv (bottom ?s3') ?s3' =
        Inr (?s3'\<lparr>matrix := apply_writes (matrix ?s3') ?seg4 (current ?s3'),
                    current := current ?s3' + int (m - 2)\<rparr>)"
      by (rule fill_left_column_writes[where n = n and c = k and t = "k + 1"])
         (use sq3 t l b r m2 n g len in simp_all)
    then show ?thesis by simp
  qed
  have M4: "?M4 = apply_writes (matrix s) (ring k m) ?c0"
    unfolding rs by (simp add: apply_writes_append add.assoc)
  have "spiral_round maxv s = Inr (?s4\<lparr>left := left ?s4 + 1\<rparr>)"
    unfolding spiral_round_def by (simp only: f1 f2 f3 f4 sum.case Let_def)
  also have "?s4\<lparr>left := left ?s4 + 1\<rparr> =
     \<lparr>matrix = apply_writes (matrix s) (ring k m) (current s),
          top = int k + 1, bottom = int (k + m) - 2, left = int k + 1, right = int (k + m) - 2,
          current = current s + int (length (ring k m))\<rparr>"
    using t l b r m unfolding M4[symmetric] len by (cases s) (simp add: )
  finally show ?thesis .
qed


lemma spiral_while_square:
  "is_square n (matrix s) \<Longrightarrow> top s = int k \<Longrightarrow> left s = int k \<Longrightarrow>
   bottom s = int (k + m) - 1 \<Longrightarrow> right s = int (k + m) - 1 \<Longrightarrow>
   0 < m \<Longrightarrow> k + m \<le> n \<Longrightarrow> maxv = current s + int (m * m) - 1 \<Longrightarrow>
   \<exists>s'. spiral_while maxv s = Some (Inr s')
      \<and> matrix s' = apply_writes (matrix s) (spiral_from k m) (current s)"
proof (induction m arbitrary: s k rule: less_induct)
  case (less m)
  let ?s1 = "\<lparr>matrix = apply_writes (matrix s) (ring k m) (current s),
          top = int k + 1, bottom = int (k + m) - 2, left = int k + 1, right = int (k + m) - 2,
          current = current s + int (length (ring k m))\<rparr>"
  note lr = length_ring[OF less.prems(6), of k]
  have g: "current s + int (length (ring k m)) - 1 \<le> maxv"
  proof -
    have "length (ring k m) \<le> m * m" using lr by simp
    then have "int (length (ring k m)) \<le> int m * int m"
      by (metis of_nat_le_iff of_nat_mult)
    then show ?thesis using less.prems(8) by simp
  qed
  have round: "spiral_round maxv s = Inr ?s1"
    using less.prems g by (intro spiral_round_ring[where n = n]) simp_all
  have enter: "current s \<le> maxv"
    using less.prems(6,8) by simp
  have unfold: "spiral_while maxv s = spiral_while maxv ?s1"
    using enter round by (subst spiral_while.simps) simp
  show ?case
  proof (cases "m \<le> 2")
    case True
    with less.prems(6) have "m - 2 = 0" by simp
    with lr have full: "length (ring k m) = m * m" by simp
    then have "\<not> current ?s1 \<le> maxv" using less.prems(8) by simp
    then have "spiral_while maxv ?s1 = Some (Inr ?s1)"
      by (subst spiral_while.simps) simp
    moreover have "spiral_from k m = ring k m"
      using less.prems(6) \<open>m - 2 = 0\<close>
      by (subst spiral_from.simps) (simp add: spiral_from.simps[of _ 0])
    ultimately show ?thesis using unfold by simp
  next
    case False
    then have m2: "0 < m - 2" "m - 2 < m" by simp_all
    have "maxv = current ?s1 + int ((m - 2) * (m - 2)) - 1"
    proof -
      have "int (m * m) = int (length (ring k m)) + int ((m - 2) * (m - 2))"
        using lr by (metis of_nat_add)
      then show ?thesis using less.prems(8) by simp
    qed
    moreover have "is_square n (matrix ?s1)"
      using less.prems(1) by (simp add: apply_writes_square)
    moreover have "bottom ?s1 = int ((k + 1) + (m - 2)) - 1" "right ?s1 = int ((k + 1) + (m - 2)) - 1"
      using False by simp_all
    moreover have "(k + 1) + (m - 2) \<le> n" using less.prems(7) False by simp
    ultimately have "\<exists>s'. spiral_while maxv ?s1 = Some (Inr s')
      \<and> matrix s' = apply_writes (matrix ?s1) (spiral_from (k + 1) (m - 2)) (current ?s1)"
      using m2 by (intro less.IH[where k = "k + 1"]) simp_all
    then obtain s' where s': "spiral_while maxv ?s1 = Some (Inr s')"
      "matrix s' = apply_writes (matrix ?s1) (spiral_from (k + 1) (m - 2)) (current ?s1)"
      by blast
    have "spiral_from k m = ring k m @ spiral_from (k + 1) (m - 2)"
      using less.prems(6) by (subst spiral_from.simps) simp
    then have "matrix s' = apply_writes (matrix s) (spiral_from k m) (current s)"
      using s'(2) by (simp add: apply_writes_append)
    with s'(1) unfold show ?thesis by simp
  qed
qed

lemma spiralMatrixc_writes:
  assumes "0 < n"
  shows "spiralMatrixc n = Some (Inr (apply_writes (replicate n (replicate n 0)) (spiral_cells n) 1))"
proof -
  let ?s = "\<lparr>matrix = replicate n (replicate n 0),
                top = 0, bottom = int n - 1, left = 0, right = int n - 1, current = 1\<rparr>"
  have "is_square n (matrix ?s)" by (simp add: is_square_def list_all_iff)
  then have "\<exists>s'. spiral_while (int n * int n) ?s = Some (Inr s')
      \<and> matrix s' = apply_writes (matrix ?s) (spiral_from 0 n) (current ?s)"
    using assms by (intro spiral_while_square[where n = n and k = 0]) simp_all
  then show ?thesis
    by (auto simp: spiralMatrixc_def Let_def spiral_cells_def)
qed

lemma apply_writes_length: "length (apply_writes m cells v) = length m"
  by (induction m cells v rule: apply_writes.induct) simp_all

lemma update_other:
  "(r, c) \<noteq> (r', c') \<Longrightarrow> (m[r' := (m ! r')[c' := v]]) ! r ! c = m ! r ! (c :: nat)"
  by (cases "r = r'"; cases "r' < length m") (auto simp: list_update_beyond)

lemma apply_writes_other:
  "(r, c) \<notin> set cells \<Longrightarrow> apply_writes m cells v ! r ! c = m ! r ! c"
  by (induction m cells v rule: apply_writes.induct) (auto simp: update_other)

lemma apply_writes_nth:
  "distinct cells \<Longrightarrow> is_square n m \<Longrightarrow> \<forall>(r, c) \<in> set cells. r < n \<and> c < n \<Longrightarrow>
   i < length cells \<Longrightarrow>
   apply_writes m cells v ! fst (cells ! i) ! snd (cells ! i) = v + int i"
proof (induction m cells v arbitrary: i rule: apply_writes.induct)
  case (1 m v)
  then show ?case by simp
next
  case (2 m r c cells v)
  let ?m1 = "m[r := (m ! r)[c := v]]"
  show ?case
  proof (cases i)
    case 0
    from "2.prems" have "(r, c) \<notin> set cells" "r < n" "c < n" by auto
    with "2.prems"(2) 0 show ?thesis
      by (simp add: apply_writes_other is_square_def list_all_length)
  next
    case (Suc j)
    from "2.prems" have "apply_writes ?m1 cells (v + 1) ! fst (cells ! j) ! snd (cells ! j) = v + 1 + int j"
      using Suc by (intro "2.IH") (auto simp: is_square_update)
    with Suc show ?thesis by simp
  qed
qed

lemma length_concat_square: "is_square n m \<Longrightarrow> length (concat m) = n * n"
proof -
  assume "is_square n m"
  then have "map length m = replicate n n"
    by (auto simp: is_square_def list_all_iff intro!: replicate_eqI)
  then show ?thesis by (simp add: length_concat sum_list_replicate)
qed

lemma set_concat_square:
  assumes "is_square n m"
  shows "set (concat m) = {m ! r ! c | r c. r < n \<and> c < n}"
proof (rule set_eqI, rule iffI)
  from assms have len: "length m = n" and rows: "\<And>r. r < n \<Longrightarrow> length (m ! r) = n"
    by (simp_all add: is_square_def list_all_length)
  {
    fix x assume "x \<in> set (concat m)"
    then obtain row where row: "row \<in> set m" "x \<in> set row" by auto
    from row(1) obtain r where r: "r < length m" "row = m ! r" by (metis in_set_conv_nth)
    from row(2) obtain c where c: "c < length row" "x = row ! c" by (metis in_set_conv_nth)
    from r c len rows[of r] have "x = m ! r ! c" "r < n" "c < n" by simp_all
    then show "x \<in> {m ! r ! c | r c. r < n \<and> c < n}" by blast
  }
  {
    fix x assume "x \<in> {m ! r ! c | r c. r < n \<and> c < n}"
    then obtain r c where rc: "x = m ! r ! c" "r < n" "c < n" by blast
    then have "m ! r \<in> set m" "x \<in> set (m ! r)" using len rows[of r] by simp_all
    then show "x \<in> set (concat m)" by auto
  }
qed

text \<open>
  Claim C5. \<open>spiralMatrixc(3)\<close> is \<open>[[1,2,3],[8,9,4],[7,6,5]]\<close>, and for every positive \<open>n\<close>
  the call returns (the loop ends, and no assignment falls outside the matrix) an
  \<open>n \<times> n\<close> matrix that holds the numbers \<open>1, 2, ..., n\<^sup>2\<close> along the clockwise spiral from the
  top-left corner and so contains each integer from 1 to \<open>n\<^sup>2\<close> exactly once.
\<close>

theorem spiralMatrixc_spiral:
  "spiralMatrixc 3 = Some (Inr [[1, 2, 3], [8, 9, 4], [7, 6, 5]])
   \<and> (0 < n \<longrightarrow>
        (\<exists>M. spiralMatrixc n = Some (Inr M)
           \<and> length M = n \<and> (\<forall>row \<in> set M. length row = n)
           \<and> map (\<lambda>(r, c). M ! r ! c) (spiral_cells n) = map int [1..<n * n + 1]
           \<and> distinct (concat M) \<and> set (concat M) = {1..int (n * n)}))"
proof (intro conjI impI)
  show "spiralMatrixc 3 = Some (Inr [[1, 2, 3], [8, 9, 4], [7, 6, 5]])"
    by code_simp
next
  assume n: "0 < n"
  let ?M = "apply_writes (replicate n (replicate n 0)) (spiral_cells n) 1"
  have sq0: "is_square n (replicate n (replicate n (0 :: int)))"
    by (simp add: is_square_def list_all_iff)
  then have sq: "is_square n ?M" by (rule apply_writes_square)
  have len: "length (spiral_cells n) = n * n"
    by (simp add: spiral_cells_def length_spiral_from)
  have cells: "set (spiral_cells n) = {0..<n} \<times> {0..<n}"
    by (simp add: spiral_cells_def set_spiral_from)
  have dist: "distinct (spiral_cells n)"
    by (simp add: spiral_cells_def distinct_spiral_from)
  have inr: "\<forall>(r, c) \<in> set (spiral_cells n). r < n \<and> c < n"
    unfolding cells by auto
  have nth: "?M ! fst (spiral_cells n ! i) ! snd (spiral_cells n ! i) = 1 + int i"
    if "i < n * n" for i
    using apply_writes_nth[OF dist sq0 inr, of i 1] that len by simp
  have order: "map (\<lambda>(r, c). ?M ! r ! c) (spiral_cells n) = map int [1..<n * n + 1]"
    by (rule nth_equalityI) (simp_all add: len case_prod_beta nth del: upt_Suc)
  have vals: "set (concat ?M) = {1..int (n * n)}"
  proof (rule set_eqI, rule iffI)
    fix v assume "v \<in> set (concat ?M)"
    then obtain r c where rc: "v = ?M ! r ! c" "r < n" "c < n"
      unfolding set_concat_square[OF sq] by blast
    then have "(r, c) \<in> set (spiral_cells n)" unfolding cells by simp
    then obtain i where i: "i < n * n" "spiral_cells n ! i = (r, c)"
      unfolding in_set_conv_nth len by blast
    with nth[of i] rc have "v = 1 + int i" by simp
    moreover from i(1) have "int i < int (n * n)" by (simp only: of_nat_less_iff)
    ultimately show "v \<in> {1..int (n * n)}" by simp
  next
    fix v assume v: "v \<in> {1..int (n * n)}"
    define i where "i = nat (v - 1)"
    from v have "0 \<le> v - 1" "v - 1 < int (n * n)" by simp_all
    then have "nat (v - 1) < n * n" by (simp only: nat_less_iff)
    with v have i: "i < n * n" "v = 1 + int i" unfolding i_def by simp_all
    obtain r c where rc: "spiral_cells n ! i = (r, c)" by (cases "spiral_cells n ! i")
    have "(r, c) \<in> set (spiral_cells n)" using i(1) len rc by (metis nth_mem)
    then have "r < n" "c < n" unfolding cells by auto
    moreover have "?M ! r ! c = v" using nth[OF i(1)] rc i(2) by simp
    ultimately show "v \<in> set (concat ?M)"
      unfolding set_concat_square[OF sq] by blast
  qed
  have "nat (int (n * n)) = n * n" by (rule nat_int)
  then have "card (set (concat ?M)) = length (concat ?M)"
    unfolding vals length_concat_square[OF sq] by (simp del: of_nat_mult)
  then have "distinct (concat ?M)" by (rule card_distinct)
  moreover have "\<forall>row \<in> set ?M. length row = n" "length ?M = n"
    using sq by (simp_all add: is_square_def list_all_iff)
  ultimately show "\<exists>M. spiralMatrixc n = Some (Inr M)
           \<and> length M = n \<and> (\<forall>row \<in> set M. length row = n)
           \<and> map (\<lambda>(r, c). M ! r ! c) (spiral_cells n) = map int [1..<n * n + 1]
           \<and> distinct (concat M) \<and> set (concat M) = {1..int (n * n)}"
    using spiralMatrixc_writes[OF n] order vals by blast
qed

theorem spiralMatrixc_spiral_witness:
  "(0 :: nat) < 4
   \<and> spiralMatrixc 4 = Some (Inr [[1, 2, 3, 4], [12, 13, 14, 5], [11, 16, 15, 6], [10, 9, 8, 7]])
   \<and> (\<exists>M. spiralMatrixc 4 = Some (Inr M) \<and> length M = 4
          \<and> map (\<lambda>(r, c). M ! r ! c) (spiral_cells 4) = map int [1..<4 * 4 + 1]
          \<and> distinct (concat M))"
proof -
  have "spiralMatrixc 4 = Some (Inr [[1, 2, 3, 4], [12, 13, 14, 5], [11, 16, 15, 6], [10, 9, 8, 7]])"
    by code_simp
  moreover have pos: "(0 :: nat) < 4" by simp
  moreover from pos spiralMatrixc_spiral[of 4]
  have "\<exists>M. spiralMatrixc 4 = Some (Inr M)
           \<and> length M = 4 \<and> (\<forall>row \<in> set M. length row = 4)
           \<and> map (\<lambda>(r, c). M ! r ! c) (spiral_cells 4) = map int [1..<4 * 4 + 1]
           \<and> distinct (concat M) \<and> set (concat M) = {1..int (4 * 4)}"
    by blast
  then have "\<exists>M. spiralMatrixc 4 = Some (Inr M) \<and> length M = 4
          \<and> map (\<lambda>(r, c). M ! r ! c) (spiral_cells 4) = map int [1..<4 * 4 + 1]
          \<and> distinct (concat M)"
    by blast
  ultimately show ?thesis by blast
qed

subsection \<open>orangesRotting\<close>

lemma scan_cell_fresh:
  "r < length g \<Longrightarrow> 1 \<notin> set (g ! r) \<Longrightarrow> snd (scan_cell g r c st) = snd st"
  by (cases st) (auto simp: scan_cell_def cell_def in_set_conv_nth)

lemma scan_row_fresh:
  "r < length g \<Longrightarrow> 1 \<notin> set (g ! r) \<Longrightarrow> snd (fold (scan_cell g r) cs st) = snd st"
  by (induction cs arbitrary: st) (simp_all add: scan_cell_fresh)

lemma scan_rows_fresh:
  "\<forall>r \<in> set rs. r < length g \<and> 1 \<notin> set (g ! r) \<Longrightarrow>
     snd (fold (scan_row g cols) rs st) = snd st"
  by (induction rs arbitrary: st) (simp_all add: scan_row_def scan_row_fresh)

lemma scan_grid_no_fresh:
  assumes "\<forall>row \<in> set g. 1 \<notin> set row"
  shows "snd (scan_grid g (length g) cols) = 0"
proof -
  have "\<forall>r \<in> set [0..<length g]. r < length g \<and> 1 \<notin> set (g ! r)"
    using assms by simp
  from scan_rows_fresh[OF this] show ?thesis by (simp add: scan_grid_def)
qed

text \<open>
  Claim C9. For a null grid and for a grid with zero rows \<open>orangesRotting\<close> returns -1, and
  for every non-empty grid with no cell equal to 1 it returns 0, however many cells are 2;
  both results are returned before the queue loop is entered.
\<close>

theorem orangesRotting_edge_cases:
  "orangesRotting None = Num (- 1)
   \<and> orangesRotting (Some []) = Num (- 1)
   \<and> (g \<noteq> [] \<and> (\<forall>row \<in> set g. 1 \<notin> set row) \<longrightarrow> orangesRotting (Some g) = Num 0)"
proof (intro conjI impI)
  show "orangesRotting None = Num (- 1)" by (simp add: orangesRotting_def)
  show "orangesRotting (Some []) = Num (- 1)" by (simp add: orangesRotting_def)
  assume h: "g \<noteq> [] \<and> (\<forall>row \<in> set g. 1 \<notin> set row)"
  then have "snd (scan_grid g (length g) (length (g ! 0))) = 0"
    by (simp add: scan_grid_no_fresh)
  with h show "orangesRotting (Some g) = Num 0"
    by (simp add: orangesRotting_def Let_def case_prod_beta)
qed

theorem orangesRotting_edge_cases_witness:
  "[[2, 0, 2], [0, 2, 0]] \<noteq> ([] :: grid)
   \<and> 1 \<notin> set [2, 0, 2 :: int] \<and> 1 \<notin> set [0, 2, 0 :: int]
   \<and> orangesRotting (Some [[2, 0, 2], [0, 2, 0]]) = Num 0"
  using orangesRotting_edge_cases[of "[[2, 0, 2], [0, 2, 0]]"] by simp

text \<open>Whenever the scan counts a fresh orange, the call runs through the queue loop and
  falls off the end of the function.\<close>

lemma orangesRotting_undefined:
  "g \<noteq> [] \<Longrightarrow> snd (scan_grid g (length g) (length (g ! 0))) \<noteq> 0 \<Longrightarrow>
   orangesRotting (Some g) = Undefined"
  by (simp add: orangesRotting_def Let_def case_prod_beta)

text \<open>
  Claim C6. The header comment of the source promises the minimum number of minutes until
  no fresh orange is left (and -1 when that is impossible), and its example the result 4 on
  \<open>[[2,1,1],[1,1,0],[0,1,1]]\<close>. The source stops in the middle of the queue loop and returns
  nothing after it: on the example, and on every grid in which the scan counts a fresh
  orange, the call evaluates to \<open>undefined\<close>.
\<close>

theorem orangesRotting_example_undefined:
  "orangesRotting (Some [[2, 1, 1], [1, 1, 0], [0, 1, 1]]) = Undefined
   \<and> orangesRotting (Some [[2, 1, 1], [1, 1, 0], [0, 1, 1]]) \<noteq> Num 4
   \<and> orangesRotting (Some [[2, 1]]) = Undefined
   \<and> orangesRotting (Some [[1]]) = Undefined"
  by (simp add: orangesRotting_def scan_grid_def scan_row_def scan_cell_def cell_def
      upt_rec[of _ "numeral _"] upt_rec[of _ "Suc _"] Let_def)

subsection \<open>black_scholes\<close>

text \<open>What the source computes: the closed form at the global \<open>K\<close>, whatever \<open>X\<close> is.\<close>

lemma black_scholes_at_global:
  assumes "0 < K" "0 < S" "0 < T" "0 < sigma"
  shows "black_scholes (Some K) N S X T r sigma option_type
           = Inr (black_scholes_formula N S K T r sigma (option_type = ''call''))"
proof -
  have "0 < S / K" using assms by simp
  then have a: "(S / K \<le> 0) = False" by simp
  have b: "(sigma * sqrt T = 0) = False" "(T < 0) = False" "(K = 0) = False" using assms by simp_all
  show ?thesis
    unfolding black_scholes_def black_scholes_formula_def Let_def option.case a b
    by simp
qed

text \<open>
  For a function \<open>N\<close> with \<open>N x + N (- x) = 1\<close>, as the standard normal distribution function
  has it, the closed form satisfies the put-call parity
  \<open>call - put = S - X exp (- r T)\<close>.
\<close>

lemma black_scholes_formula_parity:
  assumes "\<And>x. N x + N (- x) = 1"
  shows "black_scholes_formula N S X T r sigma True - black_scholes_formula N S X T r sigma False
           = S - X * exp (- r * T)"
proof -
  define d1 where "d1 = (ln (S / X) + (r + sigma ^ 2 / 2) * T) / (sigma * sqrt T)"
  define d2 where "d2 = d1 - sigma * sqrt T"
  have "black_scholes_formula N S X T r sigma True - black_scholes_formula N S X T r sigma False
      = S * (N d1 + N (- d1)) - X * exp (- r * T) * (N d2 + N (- d2))"
    by (simp add: black_scholes_formula_def Let_def d1_def d2_def algebra_simps)
  then show ?thesis by (simp add: assms)
qed

text \<open>
  With the global \<open>K = 100\<close> of the notebook, the call \<open>black_scholes(100, 50, 1, 0, 1, ...)\<close>
  cannot return the closed form at the strike 50 for both option types: the two results of
  the source differ by \<open>S - K = 0\<close>, the two closed-form prices by \<open>S - X = 50\<close>.
\<close>

lemma black_scholes_not_formula_at_X:
  assumes "\<And>x. N x + N (- x) = 1"
  shows "\<not> (black_scholes (Some 100) N 100 50 1 0 1 ''call''
               = Inr (black_scholes_formula N 100 50 1 0 1 True)
          \<and> black_scholes (Some 100) N 100 50 1 0 1 ''put''
               = Inr (black_scholes_formula N 100 50 1 0 1 False))"
proof
  assume h: "black_scholes (Some 100) N 100 50 1 0 1 ''call''
               = Inr (black_scholes_formula N 100 50 1 0 1 True)
          \<and> black_scholes (Some 100) N 100 50 1 0 1 ''put''
               = Inr (black_scholes_formula N 100 50 1 0 1 False)"
  have c: "black_scholes (Some 100) N 100 50 1 0 1 ''call''
             = Inr (black_scholes_formula N 100 100 1 0 1 True)"
    using black_scholes_at_global[of 100 100 1 1 N 50 0 "''call''"] by simp
  have p: "black_scholes (Some 100) N 100 50 1 0 1 ''put''
             = Inr (black_scholes_formula N 100 100 1 0 1 False)"
    using black_scholes_at_global[of 100 100 1 1 N 50 0 "''put''"] by simp
  from h c p have "black_scholes_formula N 100 100 1 0 1 True - black_scholes_formula N 100 100 1 0 1 False
      = black_scholes_formula N 100 50 1 0 1 True - black_scholes_formula N 100 50 1 0 1 False"
    by simp
  then show False
    unfolding black_scholes_formula_parity[of N, OF assms] by simp
qed

text \<open>
  Claim C7. The claim makes the returned price a function of the strike argument \<open>X\<close>. The
  source's result does not depend on \<open>X\<close> at all: two calls that differ only in \<open>X\<close> return
  the same, and without a global \<open>K\<close> every call raises \<open>NameError\<close>.
\<close>

theorem black_scholes_ignores_X:
  "black_scholes K_global N S X T r sigma option_type
     = black_scholes K_global N S X' T r sigma option_type
   \<and> black_scholes None N S X T r sigma option_type = Inl NameError"
  by (simp add: black_scholes_def)

subsection \<open>monte_carlo_option\<close>

text \<open>
  Claim C8. \<open>monte_carlo_option\<close> is deterministic. Whatever the generator state is when it
  is called, a call with the same arguments returns the same price (and leaves the same
  state): the state it samples from is \<open>seed 42\<close>. In particular a second call returns
  what the first returned, whatever was drawn in between.
\<close>

theorem monte_carlo_option_deterministic:
  "monte_carlo_option rng g S K T r sigma n option_type
     = monte_carlo_option rng g' S K T r sigma n option_type
   \<and> (let (price1, g1) = monte_carlo_option rng g S K T r sigma n option_type;
           (draws, g2) = standard_normal rng g1 m;
           (price2, g3) = monte_carlo_option rng g2 S K T r sigma n option_type
       in price1 = price2)"
proof -
  have eq: "monte_carlo_option rng a S K T r sigma n option_type
              = monte_carlo_option rng b S K T r sigma n option_type" for a b
    by (simp add: monte_carlo_option_def)
  show ?thesis
    using eq[of g g'] eq[of g "snd (standard_normal rng (snd (monte_carlo_option rng g S K T r sigma n option_type)) m)"]
    by (simp add: case_prod_beta)
qed

subsection \<open>RiskManager.size_position\<close>



end
